theory Spec2Isabelle
  imports Main
begin

section \<open>Spans as the parser reports them\<close>

text \<open>
  The script reads \<open>token.type\<close>, \<open>token.value\<close>, \<open>token.range[1]\<close>,
  \<open>token.loc.start.line\<close> and \<open>token.loc.start.column\<close> of every comment and token
  object that the parser returns. The objects are records with the same nesting; offsets,
  lines and columns are the parser's non-negative integers. A JavaScript string is a list
  of characters (one \<open>char\<close> for one code unit).
\<close>

record position =
  line :: nat
  column :: nat

record location =
  start :: position

record token =
  type :: string
  "value" :: string
  range' :: "nat \<times> nat"
  loc :: location

text \<open>\<open>function isComment(token) { return token.type === "Block" }\<close>\<close>

definition isComment :: "token \<Rightarrow> bool" where
  "isComment token = (type token = ''Block'')"

section \<open>The sort comparator\<close>

text \<open>The function handed to \<open>sort\<close>: a chain of three conditional expressions.\<close>

definition comparator :: "token \<Rightarrow> token \<Rightarrow> int" where
  "comparator a b =
     (let aLine = line (start (loc a));
          bLine = line (start (loc b));
          aColumn = column (start (loc a));
          bColumn = column (start (loc b))
      in if aLine < bLine then - 1
         else if aLine > bLine then 1
         else if aColumn < bColumn then - 1 else 1)"

section \<open>\<open>String.prototype.substring\<close>\<close>

text \<open>
  \<open>sourceCode.substring(previousEnd, end)\<close>: an \<open>undefined\<close> start converts to
  \<open>NaN\<close> and is taken as \<open>0\<close>; both offsets are clamped to the length of the string; when
  the start is larger than the end the two are swapped. The start is a \<open>nat option\<close>,
  \<open>None\<close> being \<open>undefined\<close>.
\<close>

definition substring :: "string \<Rightarrow> nat option \<Rightarrow> nat \<Rightarrow> string" where
  "substring s startArg endArg =
     (let len = length s;
          intStart = (case startArg of None \<Rightarrow> 0 | Some n \<Rightarrow> n);
          finalStart = min intStart len;
          finalEnd = min endArg len;
          from = min finalStart finalEnd;
          to = max finalStart finalEnd
      in take (to - from) (drop from s))"

section \<open>The builder loop\<close>

text \<open>
  The three variables declared before the loop: \<open>str\<close>, \<open>inComment\<close> and
  \<open>previousEnd\<close>, the last one declared without a value.
\<close>

record builder =
  str :: string
  inComment :: bool
  previousEnd :: "nat option"

definition initial :: builder where
  "initial = \<lparr>str = '''', inComment = True, previousEnd = None\<rparr>"

text \<open>
  The body of the \<open>forEach\<close> callback: the fence transition, then the slice of the source
  or the comment's value, then the update of \<open>previousEnd\<close>.
\<close>

definition visit :: "string \<Rightarrow> builder \<Rightarrow> token \<Rightarrow> builder" where
  "visit sourceCode st token =
     (let st1 =
            (if isComment token \<and> inComment st = False
             then st\<lparr>inComment := True, str := str st @ ''\<newline>```''\<rparr>
             else if \<not> isComment token \<and> inComment st = True
             then st\<lparr>inComment := False, str := str st @ ''```js''\<rparr>
             else st);
          end' = snd (range' token);
          st2 =
            (if \<not> isComment token
             then st1\<lparr>str := str st1 @ substring sourceCode (previousEnd st1) end'\<rparr>
             else st1\<lparr>str := str st1 @ value token\<rparr>)
      in st2\<lparr>previousEnd := Some end'\<rparr>)"

text \<open>\<open>allTokens.forEach(...)\<close> visits the elements from the first to the last.\<close>

definition forEach :: "string \<Rightarrow> builder \<Rightarrow> token list \<Rightarrow> builder" where
  "forEach sourceCode st allTokens = foldl (visit sourceCode) st allTokens"

text \<open>
  What follows the loop: the closing fence when the loop ended in code, and the string
  handed to \<open>process.stdout.write\<close>, which is \<open>str + "\n"\<close>.
\<close>

definition transcript :: "string \<Rightarrow> token list \<Rightarrow> string" where
  "transcript sourceCode allTokens =
     (let st = forEach sourceCode initial allTokens;
          str' = (if inComment st = False then str st @ ''\<newline>```'' else str st)
      in str' @ ''\<newline>'')"

section \<open>The pieces the loop appends\<close>

text \<open>
  Every \<open>str += ...\<close> of the script appends one of four things: the marker
  \<open>"```js"\<close>, the marker \<open>"\n```"\<close>, a slice of the source, or a comment's value.
  \<open>emitted\<close> lists what one visit appends, in order, and \<open>segments\<close> what the loop
  appends; \<open>str_forEach\<close> below shows that \<open>str\<close> is their concatenation.
\<close>

datatype segment = FenceOpen | FenceClose | CodeSlice string | Prose string

fun text_of :: "segment \<Rightarrow> string" where
  "text_of FenceOpen = ''```js''"
| "text_of FenceClose = ''\<newline>```''"
| "text_of (CodeSlice s) = s"
| "text_of (Prose s) = s"

definition emitted :: "string \<Rightarrow> builder \<Rightarrow> token \<Rightarrow> segment list" where
  "emitted sourceCode st token =
     (if isComment token \<and> inComment st = False then [FenceClose]
      else if \<not> isComment token \<and> inComment st = True then [FenceOpen]
      else []) @
     [if \<not> isComment token
      then CodeSlice (substring sourceCode (previousEnd st) (snd (range' token)))
      else Prose (value token)]"

fun segments :: "string \<Rightarrow> builder \<Rightarrow> token list \<Rightarrow> segment list" where
  "segments sourceCode st [] = []"
| "segments sourceCode st (token # rest) =
     emitted sourceCode st token @ segments sourceCode (visit sourceCode st token) rest"

definition transcriptSegments :: "string \<Rightarrow> token list \<Rightarrow> segment list" where
  "transcriptSegments sourceCode allTokens =
     segments sourceCode initial allTokens @
     (if inComment (forEach sourceCode initial allTokens) = False then [FenceClose] else [])"

fun markers :: "segment list \<Rightarrow> segment list" where
  "markers [] = []"
| "markers (FenceOpen # segs) = FenceOpen # markers segs"
| "markers (FenceClose # segs) = FenceClose # markers segs"
| "markers (_ # segs) = markers segs"

fun codeSlices :: "segment list \<Rightarrow> string list" where
  "codeSlices [] = []"
| "codeSlices (CodeSlice s # segs) = s # codeSlices segs"
| "codeSlices (_ # segs) = codeSlices segs"

section \<open>The engine's sort\<close>

text \<open>
  \<open>Array.prototype.sort\<close> belongs to the JavaScript engine, so the sort is a parameter
  \<open>srt\<close> of the program below. The language standard leaves the resulting order to the
  engine when the comparison function is not consistent. An insertion sort of the kind
  that engines use on short arrays serves as an instance where a concrete sort is needed:
  \<open>InsertionSort\<close> walks back from the end of the sorted prefix and calls the
  comparison function with the prefix element first.
\<close>

type_synonym 'a sorter = "('a \<Rightarrow> 'a \<Rightarrow> int) \<Rightarrow> 'a list \<Rightarrow> 'a list"

text \<open>The sorted prefix is kept with its last element first.\<close>

fun insertBackwards :: "('a \<Rightarrow> 'a \<Rightarrow> int) \<Rightarrow> 'a \<Rightarrow> 'a list \<Rightarrow> 'a list" where
  "insertBackwards comparefn element [] = [element]"
| "insertBackwards comparefn element (tmp # earlier) =
     (if comparefn tmp element > 0 then tmp # insertBackwards comparefn element earlier
      else element # tmp # earlier)"

definition InsertionSort :: "'a sorter" where
  "InsertionSort comparefn a =
     rev (foldl (\<lambda>prefix element. insertBackwards comparefn element prefix) [] a)"

section \<open>The program\<close>

text \<open>
  The file system and the parser are outside the script: \<open>readFile n file\<close> is what the
  \<open>n\<close>-th attempt to read \<open>file\<close> yields, and \<open>parse\<close> is \<open>esprima.parse\<close> with the
  options of the script, returning \<open>output.comments\<close> and \<open>output.tokens\<close> or raising.
  An outcome records the exception that left the callback, if any, and the strings handed
  to \<open>process.stdout.write\<close>. \<open>body\<close> stands for the text that \<open>String(body)\<close>
  decodes from the buffer.
\<close>

datatype error = Error string

record outcome =
  thrown :: "error option"
  stdout :: "string list"

type_synonym parser = "string \<Rightarrow> error + (token list \<times> token list)"

definition callback :: "parser \<Rightarrow> token sorter \<Rightarrow> error option \<Rightarrow> string \<Rightarrow> outcome" where
  "callback parse srt err body =
     (case err of
        Some e \<Rightarrow> \<lparr>thrown = Some e, stdout = []\<rparr>
      | None \<Rightarrow>
          (let sourceCode = body
           in case parse sourceCode of
                Inl e \<Rightarrow> \<lparr>thrown = Some e, stdout = []\<rparr>
              | Inr (comments, tokens) \<Rightarrow>
                  (let allTokens = srt comparator (comments @ tokens)
                   in \<lparr>thrown = None, stdout = [transcript sourceCode allTokens]\<rparr>)))"

text \<open>
  \<open>fs.readFile(file, callback)\<close>: one read, whose result reaches the callback as
  \<open>err\<close> or as \<open>body\<close>. On an error there is no body.
\<close>

definition main :: "(nat \<Rightarrow> string \<Rightarrow> error + string) \<Rightarrow> parser \<Rightarrow> token sorter \<Rightarrow> string \<Rightarrow> outcome" where
  "main readFile parse srt file =
     (case readFile 0 file of
        Inl e \<Rightarrow> callback parse srt (Some e) []
      | Inr body \<Rightarrow> callback parse srt None body)"

section \<open>Notions used to state the properties\<close>

text \<open>
  \<open>startOf\<close> is the offset that \<open>substring\<close> takes for its first argument.
  \<open>covered p allTokens\<close> lists the offsets of the source that lie between the end of the
  span before a non-comment span (\<open>p\<close> for the first span) and that span's own end;
  \<open>endsAscending\<close> says that the range ends do not decrease along the sequence, as
  for spans that do not overlap and are taken in source order.
\<close>

definition startOf :: "nat option \<Rightarrow> nat" where
  "startOf pe = (case pe of None \<Rightarrow> 0 | Some n \<Rightarrow> n)"

fun covered :: "nat \<Rightarrow> token list \<Rightarrow> nat list" where
  "covered p [] = []"
| "covered p (token # rest) =
     (if isComment token then [] else [p ..< snd (range' token)]) @
     covered (snd (range' token)) rest"

definition endsAscending :: "token list \<Rightarrow> bool" where
  "endsAscending allTokens = sorted (map (\<lambda>token. snd (range' token)) allTokens)"

text \<open>
  Putting the block comments back: the code slices in the order of emission, each
  comment's value between the delimiters that the parser stripped.
\<close>

fun restore :: "segment list \<Rightarrow> string" where
  "restore [] = []"
| "restore (CodeSlice s # segs) = s @ restore segs"
| "restore (Prose v # segs) = ''/*'' @ v @ ''*/'' @ restore segs"
| "restore (_ # segs) = restore segs"

text \<open>
  The one place that reads \<open>previousEnd\<close> is the call of \<open>substring\<close> in the
  branch for spans that are not block comments. \<open>readsUndefined\<close> says that a visit
  takes this branch while \<open>previousEnd\<close> has no value yet, and \<open>undefinedReads\<close>
  counts such visits of the loop.
\<close>

definition readsUndefined :: "builder \<Rightarrow> token \<Rightarrow> bool" where
  "readsUndefined st token = (\<not> isComment token \<and> previousEnd st = None)"

fun undefinedReads :: "string \<Rightarrow> builder \<Rightarrow> token list \<Rightarrow> nat" where
  "undefinedReads sourceCode st [] = 0"
| "undefinedReads sourceCode st (token # rest) =
     (if readsUndefined st token then 1 else 0) +
     undefinedReads sourceCode (visit sourceCode st token) rest"

section \<open>Sample inputs\<close>

text \<open>
  Spans as the parser reports them: the type, the value, the range and the line and
  column of the first character (lines count from 1, columns from 0).
\<close>

definition span :: "string \<Rightarrow> string \<Rightarrow> nat \<times> nat \<Rightarrow> nat \<Rightarrow> nat \<Rightarrow> token" where
  "span ty v r l c =
     \<lparr>type = ty, value = v, range' = r, loc = \<lparr>start = \<lparr>line = l, column = c\<rparr>\<rparr>\<rparr>"

text \<open>The source \<open>var x\<close>, and the same with a line break at its end.\<close>

definition tokensVarX :: "token list" where
  "tokensVarX = [span ''Keyword'' ''var'' (0, 3) 1 0, span ''Identifier'' ''x'' (4, 5) 1 4]"

text \<open>The source \<open>x /* c */\<close> followed by a line break.\<close>

definition commentsXC :: "token list" where
  "commentsXC = [span ''Block'' '' c '' (2, 9) 1 2]"

definition tokensXC :: "token list" where
  "tokensXC = [span ''Identifier'' ''x'' (0, 1) 1 0]"

text \<open>The source \<open>// hi\<close>: one line comment and no token.\<close>

definition commentsHi :: "token list" where
  "commentsHi = [span ''Line'' '' hi'' (0, 5) 1 0]"

text \<open>
  The source \<open>/* hello */\<close>, a line break, \<open>var x = 1;\<close>. The value of the comment is
  what stands between the delimiters; it is a parameter \<open>v\<close> here.
\<close>

definition sourceHello :: string where
  "sourceHello = ''/* hello */\<newline>var x = 1;''"

definition commentsHello :: "string \<Rightarrow> token list" where
  "commentsHello v = [span ''Block'' v (0, 11) 1 0]"

definition tokensHello :: "token list" where
  "tokensHello =
     [span ''Keyword'' ''var'' (12, 15) 2 0,
      span ''Identifier'' ''x'' (16, 17) 2 4,
      span ''Punctuator'' ''='' (18, 19) 2 6,
      span ''Numeric'' ''1'' (20, 21) 2 8,
      span ''Punctuator'' '';'' (21, 22) 2 9]"

text \<open>A comment and a token that start at the same line and column.\<close>

definition tiedComment :: token where
  "tiedComment = span ''Block'' ''c'' (4, 9) 1 4"

definition tiedToken :: token where
  "tiedToken = span ''Identifier'' ''x'' (4, 5) 1 4"

section \<open>Basic facts about the loop\<close>

lemma inComment_visit: "inComment (visit sourceCode st token) = isComment token"
  by (simp add: visit_def Let_def)

lemma previousEnd_visit: "previousEnd (visit sourceCode st token) = Some (snd (range' token))"
  by (simp add: visit_def Let_def)

lemma str_visit:
  "str (visit sourceCode st token) = str st @ concat (map text_of (emitted sourceCode st token))"
  by (simp add: visit_def emitted_def Let_def)

lemma forEach_Nil: "forEach sourceCode st [] = st"
  by (simp add: forEach_def)

lemma forEach_Cons:
  "forEach sourceCode st (token # rest) = forEach sourceCode (visit sourceCode st token) rest"
  by (simp add: forEach_def)

lemma str_forEach:
  "str (forEach sourceCode st allTokens) =
     str st @ concat (map text_of (segments sourceCode st allTokens))"
proof (induction allTokens arbitrary: st)
  case Nil
  show ?case by (simp add: forEach_Nil)
next
  case (Cons token rest)
  show ?case
    by (simp add: forEach_Cons Cons.IH str_visit)
qed

lemma transcript_segments:
  "transcript sourceCode allTokens =
     concat (map text_of (transcriptSegments sourceCode allTokens)) @ ''\<newline>''"
  by (simp add: transcript_def transcriptSegments_def Let_def str_forEach initial_def)

lemma markers_append: "markers (xs @ ys) = markers xs @ markers ys"
  by (induction xs rule: markers.induct) simp_all

lemma markers_emitted:
  "markers (emitted sourceCode st token) =
     (if isComment token = inComment st then []
      else [if isComment token then FenceClose else FenceOpen])"
  by (auto simp add: emitted_def)

text \<open>
  With the marker that is open when the loop starts and the one appended after the loop,
  the markers of the loop are a sequence of opening and closing pairs.
\<close>

lemma markers_alternate:
  "\<exists>n. (if inComment st then [] else [FenceOpen]) @ markers (segments sourceCode st allTokens) @
        (if inComment (forEach sourceCode st allTokens) then [] else [FenceClose]) =
        concat (replicate n [FenceOpen, FenceClose])"
proof (induction allTokens arbitrary: st)
  case Nil
  show ?case
  proof (cases "inComment st")
    case True
    then have "(if inComment st then [] else [FenceOpen]) @ markers (segments sourceCode st []) @
        (if inComment (forEach sourceCode st []) then [] else [FenceClose]) = concat (replicate 0 [FenceOpen, FenceClose])"
      by (simp add: forEach_Nil)
    then show ?thesis by blast
  next
    case False
    then have "(if inComment st then [] else [FenceOpen]) @ markers (segments sourceCode st []) @
        (if inComment (forEach sourceCode st []) then [] else [FenceClose]) = concat (replicate 1 [FenceOpen, FenceClose])"
      by (simp add: forEach_Nil)
    then show ?thesis by blast
  qed
next
  case (Cons token rest)
  obtain n where n: "(if inComment (visit sourceCode st token) then [] else [FenceOpen]) @
        markers (segments sourceCode (visit sourceCode st token) rest) @
        (if inComment (forEach sourceCode (visit sourceCode st token) rest) then [] else [FenceClose]) =
        concat (replicate n [FenceOpen, FenceClose])"
    using Cons.IH by blast
  show ?case
  proof (cases "isComment token = inComment st")
    case True
    with n have "(if inComment st then [] else [FenceOpen]) @ markers (segments sourceCode st (token # rest)) @
        (if inComment (forEach sourceCode st (token # rest)) then [] else [FenceClose]) = concat (replicate n [FenceOpen, FenceClose])"
      by (simp add: forEach_Cons markers_append markers_emitted inComment_visit)
    then show ?thesis by blast
  next
    case False
    show ?thesis
    proof (cases "isComment token")
      case True
      with False n have "(if inComment st then [] else [FenceOpen]) @ markers (segments sourceCode st (token # rest)) @
        (if inComment (forEach sourceCode st (token # rest)) then [] else [FenceClose]) = concat (replicate (Suc n) [FenceOpen, FenceClose])"
        by (simp add: forEach_Cons markers_append markers_emitted inComment_visit)
      then show ?thesis by blast
    next
      case notc: False
      with False n have "(if inComment st then [] else [FenceOpen]) @ markers (segments sourceCode st (token # rest)) @
        (if inComment (forEach sourceCode st (token # rest)) then [] else [FenceClose]) = concat (replicate n [FenceOpen, FenceClose])"
        by (simp add: forEach_Cons markers_append markers_emitted inComment_visit)
      then show ?thesis by blast
    qed
  qed
qed

section \<open>Slices and the offsets they reproduce\<close>

lemma take_drop_map_nth: "b \<le> length s \<Longrightarrow> take (b - a) (drop a s) = map ((!) s) [a..<b]"
  by (rule nth_equalityI) auto

lemma filter_upt_less: "filter (\<lambda>i. i < n) [p..<e] = [p..<min e n]"
proof (induction e)
  case 0
  show ?case by simp
next
  case (Suc e)
  show ?case
  proof (cases "Suc e \<le> n")
    case True
    with Suc show ?thesis by (simp add: min_def)
  next
    case False
    then have "min (Suc e) n = n" and "min e n = n" by simp_all
    with Suc False show ?thesis by simp
  qed
qed

lemma substring_nth:
  assumes "p \<le> e"
  shows "substring s (Some p) e = map ((!) s) (filter (\<lambda>i. i < length s) [p..<e])"
proof -
  have "substring s (Some p) e = take (min e (length s) - min p (length s)) (drop (min p (length s)) s)"
    using assms by (simp add: substring_def Let_def min_def max_def)
  also have "\<dots> = map ((!) s) [min p (length s)..<min e (length s)]"
    by (rule take_drop_map_nth) simp
  also have "[min p (length s)..<min e (length s)] = [p..<min e (length s)]"
    by (cases "p \<le> length s") (simp_all add: min_def)
  finally show ?thesis by (simp add: filter_upt_less)
qed

lemma substring_undefined: "substring s None e = substring s (Some 0) e"
  by (simp add: substring_def)

lemma codeSlices_append: "codeSlices (xs @ ys) = codeSlices xs @ codeSlices ys"
  by (induction xs rule: codeSlices.induct) simp_all

lemma codeSlices_emitted:
  "codeSlices (emitted sourceCode st token) =
     (if isComment token then []
      else [substring sourceCode (previousEnd st) (snd (range' token))])"
  by (simp add: emitted_def)

lemma substring_startOf:
  "startOf pe \<le> e \<Longrightarrow>
   substring s pe e = map ((!) s) (filter (\<lambda>i. i < length s) [startOf pe..<e])"
  by (cases pe) (simp_all add: startOf_def substring_undefined substring_nth)

lemma slices_covered:
  "sorted (startOf (previousEnd st) # map (\<lambda>token. snd (range' token)) allTokens) \<Longrightarrow>
   concat (codeSlices (segments sourceCode st allTokens)) =
     map ((!) sourceCode) (filter (\<lambda>i. i < length sourceCode) (covered (startOf (previousEnd st)) allTokens))"
proof (induction allTokens arbitrary: st)
  case Nil
  show ?case by simp
next
  case (Cons token rest)
  let ?e = "snd (range' token)"
  from Cons.prems have le: "startOf (previousEnd st) \<le> ?e"
    and srt: "sorted (?e # map (\<lambda>token. snd (range' token)) rest)"
    by simp_all
  have next_start: "startOf (previousEnd (visit sourceCode st token)) = ?e"
    by (simp add: previousEnd_visit startOf_def)
  have IH: "concat (codeSlices (segments sourceCode (visit sourceCode st token) rest)) =
     map ((!) sourceCode) (filter (\<lambda>i. i < length sourceCode) (covered ?e rest))"
    using Cons.IH [of "visit sourceCode st token"] srt next_start by simp
  show ?case
    by (simp add: codeSlices_append codeSlices_emitted IH substring_startOf [OF le])
qed

lemma covered_lower: "sorted (p # map (\<lambda>token. snd (range' token)) allTokens) \<Longrightarrow> i \<in> set (covered p allTokens) \<Longrightarrow> p \<le> i"
proof (induction allTokens arbitrary: p)
  case Nil
  then show ?case by simp
next
  case (Cons token rest)
  from Cons.prems(1) have le: "p \<le> snd (range' token)"
    and srt: "sorted (snd (range' token) # map (\<lambda>token. snd (range' token)) rest)"
    by simp_all
  from Cons.prems(2) have "i \<in> set [p ..< snd (range' token)] \<or> i \<in> set (covered (snd (range' token)) rest)"
    by (auto split: if_splits)
  then show ?case
  proof
    assume "i \<in> set [p ..< snd (range' token)]"
    then show ?thesis by simp
  next
    assume "i \<in> set (covered (snd (range' token)) rest)"
    then have "snd (range' token) \<le> i" using Cons.IH srt by blast
    with le show ?thesis by simp
  qed
qed

lemma covered_ascending:
  "sorted (p # map (\<lambda>token. snd (range' token)) allTokens) \<Longrightarrow> sorted_wrt (<) (covered p allTokens)"
proof (induction allTokens arbitrary: p)
  case Nil
  show ?case by simp
next
  case (Cons token rest)
  from Cons.prems have srt: "sorted (snd (range' token) # map (\<lambda>token. snd (range' token)) rest)"
    by simp
  have later: "\<forall>j \<in> set (covered (snd (range' token)) rest). snd (range' token) \<le> j"
    using covered_lower [OF srt] by blast
  have "sorted_wrt (<) (covered (snd (range' token)) rest)"
    using Cons.IH srt by blast
  with later show ?case
    by (auto simp add: sorted_wrt_append)
qed

lemma covered_upper:
  "allTokens \<noteq> [] \<Longrightarrow> sorted (map (\<lambda>token. snd (range' token)) allTokens) \<Longrightarrow>
   i \<in> set (covered p allTokens) \<Longrightarrow> i < snd (range' (last allTokens))"
proof (induction allTokens arbitrary: p)
  case Nil
  then show ?case by simp
next
  case (Cons token rest)
  show ?case
  proof (cases "rest = []")
    case True
    with Cons.prems(3) show ?thesis by (auto split: if_splits)
  next
    case False
    from Cons.prems(2) have srt: "sorted (map (\<lambda>token. snd (range' token)) rest)"
      and le: "\<forall>e \<in> set (map (\<lambda>token. snd (range' token)) rest). snd (range' token) \<le> e"
      by simp_all
    have "last rest \<in> set rest" using False by simp
    then have le_last: "snd (range' token) \<le> snd (range' (last rest))" using le by simp
    from Cons.prems(3) have "i \<in> set [p ..< snd (range' token)] \<or> i \<in> set (covered (snd (range' token)) rest)"
      by (auto split: if_splits)
    then show ?thesis
    proof
      assume "i \<in> set [p ..< snd (range' token)]"
      with le_last False show ?thesis by simp
    next
      assume "i \<in> set (covered (snd (range' token)) rest)"
      then show ?thesis using Cons.IH [OF False srt] False by simp
    qed
  qed
qed

lemma upt_split: "a \<le> b \<Longrightarrow> b \<le> c \<Longrightarrow> [a..<b] @ [b..<c] = [a..<c]"
  by (metis le_Suc_ex upt_add_eq_append)

lemma substring_append:
  assumes "startOf pe \<le> b" and "b \<le> c"
  shows "substring s pe b @ substring s (Some b) c = substring s pe c"
proof -
  have "startOf pe \<le> c" using assms by simp
  then have "substring s pe c = map ((!) s) (filter (\<lambda>i. i < length s) ([startOf pe..<b] @ [b..<c]))"
    by (simp only: substring_startOf upt_split [OF assms])
  moreover have "substring s (Some b) c = map ((!) s) (filter (\<lambda>i. i < length s) [b..<c])"
    using assms(2) by (rule substring_nth)
  ultimately show ?thesis
    by (simp add: substring_startOf [OF assms(1)])
qed

lemma run_of_code:
  "allTokens \<noteq> [] \<Longrightarrow> \<forall>token \<in> set allTokens. \<not> isComment token \<Longrightarrow>
   sorted (startOf (previousEnd st) # map (\<lambda>token. snd (range' token)) allTokens) \<Longrightarrow>
   concat (map text_of (segments sourceCode st allTokens)) =
     (if inComment st then ''```js'' else '''') @
     substring sourceCode (previousEnd st) (snd (range' (last allTokens))) \<and>
   inComment (forEach sourceCode st allTokens) = False"
proof (induction allTokens arbitrary: st)
  case Nil
  then show ?case by simp
next
  case (Cons token rest)
  let ?e = "snd (range' token)"
  from Cons.prems(2) have code: "\<not> isComment token" by simp
  from Cons.prems(3) have le: "startOf (previousEnd st) \<le> ?e"
    and srt: "sorted (?e # map (\<lambda>token. snd (range' token)) rest)"
    by simp_all
  show ?case
  proof (cases "rest = []")
    case True
    with code show ?thesis
      by (simp add: emitted_def forEach_Cons forEach_Nil inComment_visit)
  next
    case False
    have st': "inComment (visit sourceCode st token) = False"
      "previousEnd (visit sourceCode st token) = Some ?e"
      using code by (simp_all add: inComment_visit previousEnd_visit)
    have "sorted (startOf (previousEnd (visit sourceCode st token)) # map (\<lambda>token. snd (range' token)) rest)"
      using srt by (simp add: st' startOf_def)
    with Cons.IH [OF False, of "visit sourceCode st token"] Cons.prems(2)
    have IH: "concat (map text_of (segments sourceCode (visit sourceCode st token) rest)) =
        substring sourceCode (Some ?e) (snd (range' (last rest)))"
      and fin: "inComment (forEach sourceCode (visit sourceCode st token) rest) = False"
      by (simp_all add: st')
    have "last rest \<in> set rest" using False by simp
    with srt have "?e \<le> snd (range' (last rest))" by simp
    then have "substring sourceCode (previousEnd st) ?e @ substring sourceCode (Some ?e) (snd (range' (last rest)))
       = substring sourceCode (previousEnd st) (snd (range' (last rest)))"
      using le by (simp add: substring_append)
    with code False IH fin show ?thesis
      by (simp add: emitted_def forEach_Cons)
  qed
qed

section \<open>Reads of \<open>previousEnd\<close>\<close>

lemma undefinedReads_defined:
  "previousEnd st \<noteq> None \<Longrightarrow> undefinedReads sourceCode st allTokens = 0"
proof (induction allTokens arbitrary: st)
  case Nil
  show ?case by simp
next
  case (Cons token rest)
  have "previousEnd (visit sourceCode st token) \<noteq> None"
    by (simp add: previousEnd_visit)
  then have "undefinedReads sourceCode (visit sourceCode st token) rest = 0"
    by (rule Cons.IH)
  with Cons.prems show ?case
    by (simp add: readsUndefined_def)
qed

section \<open>The loop on a sequence in two parts\<close>

lemma covered_append:
  "covered p (xs @ ys) = covered p xs @ covered (if xs = [] then p else snd (range' (last xs))) ys"
  by (induction xs arbitrary: p) simp_all

lemma segments_append:
  "segments sourceCode st (xs @ ys) =
     segments sourceCode st xs @ segments sourceCode (forEach sourceCode st xs) ys"
  by (induction xs arbitrary: st) (simp_all add: forEach_Nil forEach_Cons)

lemma inComment_forEach:
  "allTokens \<noteq> [] \<Longrightarrow> inComment (forEach sourceCode st allTokens) = isComment (last allTokens)"
  by (induction allTokens arbitrary: st) (simp_all add: forEach_Nil forEach_Cons inComment_visit)

lemma codeSlices_transcriptSegments:
  "codeSlices (transcriptSegments sourceCode allTokens) =
     codeSlices (segments sourceCode initial allTokens)"
  by (simp add: transcriptSegments_def codeSlices_append)

section \<open>The last span\<close>

lemma emitted_code:
  "\<not> isComment token \<Longrightarrow>
   emitted sourceCode st token =
     (if inComment st then [FenceOpen] else []) @
     [CodeSlice (substring sourceCode (previousEnd st) (snd (range' token)))]"
  by (simp add: emitted_def)

lemma transcript_last:
  "allTokens \<noteq> [] \<Longrightarrow>
   transcript sourceCode allTokens =
     concat (map text_of (segments sourceCode initial allTokens)) @
     (if isComment (last allTokens) then '''' else ''\<newline>```'') @ ''\<newline>''"
  by (simp add: transcript_def Let_def str_forEach inComment_forEach initial_def)

lemma segments_last:
  assumes "allTokens \<noteq> []"
  shows "segments sourceCode st allTokens =
     segments sourceCode st (butlast allTokens) @
     emitted sourceCode (forEach sourceCode st (butlast allTokens)) (last allTokens)"
proof -
  have "segments sourceCode st (butlast allTokens @ [last allTokens]) =
     segments sourceCode st (butlast allTokens) @
     emitted sourceCode (forEach sourceCode st (butlast allTokens)) (last allTokens)"
    by (simp only: segments_append segments.simps append_Nil2)
  with assms show ?thesis by simp
qed

lemma startOf_forEach:
  "startOf (previousEnd (forEach sourceCode st allTokens)) =
     (if allTokens = [] then startOf (previousEnd st) else snd (range' (last allTokens)))"
  by (induction allTokens arbitrary: st)
    (simp_all add: forEach_Nil forEach_Cons previousEnd_visit startOf_def)

lemma covered_last:
  assumes "allTokens \<noteq> []"
  shows "covered p allTokens =
     covered p (butlast allTokens) @
     (if isComment (last allTokens) then []
      else [(if butlast allTokens = [] then p else snd (range' (last (butlast allTokens))))
              ..< snd (range' (last allTokens))])"
proof -
  have "covered p (butlast allTokens @ [last allTokens]) =
     covered p (butlast allTokens) @
     (if isComment (last allTokens) then []
      else [(if butlast allTokens = [] then p else snd (range' (last (butlast allTokens))))
              ..< snd (range' (last allTokens))])"
    by (simp only: covered_append covered.simps append_Nil2)
  with assms show ?thesis by simp
qed

section \<open>The claims\<close>

subsection \<open>C1: what the code slices reproduce\<close>

text \<open>
  Claim C1, as stated, says that the code slices in emission order, with the block
  comments put back, give the source text, and that no character outside the comment
  bodies is lost. For the source \<open>x /* c */\<close> with a line break at its end the one
  slice is \<open>x\<close>: the blank between the token and the comment and the line break
  after the comment are lost. For \<open>var x\<close> with a line break at its end and no comment
  at all, the slices do not give the source either.
\<close>

theorem round_trip_counterexample:
  "concat (codeSlices (transcriptSegments ''x /* c */\<newline>'' (InsertionSort comparator (commentsXC @ tokensXC)))) = ''x'' \<and>
   restore (transcriptSegments ''x /* c */\<newline>'' (InsertionSort comparator (commentsXC @ tokensXC))) = ''x/* c */'' \<and>
   restore (transcriptSegments ''x /* c */\<newline>'' (InsertionSort comparator (commentsXC @ tokensXC))) \<noteq> ''x /* c */\<newline>'' \<and>
   concat (codeSlices (transcriptSegments ''var x\<newline>'' (InsertionSort comparator ([] @ tokensVarX)))) \<noteq> ''var x\<newline>''"
  by code_simp

text \<open>
  Claim C1, amended. When the range ends do not decrease along the merged sequence, the
  code slices in emission order are the characters of the source at the offsets from the
  end of the span before each non-comment span (offset 0 for the first span) up to that
  span's end; these offsets increase strictly, so each such character appears once and in
  the order of the source. Characters at other offsets (before a leading block comment,
  between a span and a block comment after it, after the last span) are in no slice.
\<close>

theorem slices_reproduce_covered:
  "endsAscending allTokens \<Longrightarrow>
   concat (codeSlices (transcriptSegments sourceCode allTokens)) =
     map ((!) sourceCode) (filter (\<lambda>i. i < length sourceCode) (covered 0 allTokens)) \<and>
   sorted_wrt (<) (covered 0 allTokens)"
proof -
  assume "endsAscending allTokens"
  then have srt: "sorted (startOf (previousEnd initial) # map (\<lambda>token. snd (range' token)) allTokens)"
    by (simp add: endsAscending_def startOf_def initial_def)
  have z: "startOf (previousEnd initial) = 0"
    by (simp add: startOf_def initial_def)
  from slices_covered [OF srt, of sourceCode] covered_ascending [OF srt] z
  show ?thesis
    by (simp add: codeSlices_transcriptSegments)
qed

theorem slices_reproduce_covered_witness:
  "endsAscending (InsertionSort comparator (commentsXC @ tokensXC)) \<and>
   concat (codeSlices (transcriptSegments ''x /* c */\<newline>'' (InsertionSort comparator (commentsXC @ tokensXC)))) = ''x'' \<and>
   covered 0 (InsertionSort comparator (commentsXC @ tokensXC)) = [0]"
proof -
  have e: "endsAscending (InsertionSort comparator (commentsXC @ tokensXC))"
    by code_simp
  have c: "covered 0 (InsertionSort comparator (commentsXC @ tokensXC)) = [0]"
    by code_simp
  from slices_reproduce_covered [OF e, of "''x /* c */\<newline>''"] e c
  show ?thesis by simp
qed

subsection \<open>C2: fence balance\<close>

text \<open>
  Claim C2. For every source text, every parse and every sort, the output is the
  concatenation of the appended pieces and a line break, and the fence markers among the
  pieces, the one appended after the loop included, are opening and closing markers in
  turn, starting with an opening and ending with a closing one: as many of the one as of
  the other, never two of a kind in a row, none nested. A visit appends a marker exactly
  when the kind of its span differs from the state, and sets the state to that kind; after
  the loop a closing marker is appended exactly when the state is code.
\<close>

theorem fence_balance:
  "transcript sourceCode (srt comparator (comments @ tokens)) =
     concat (map text_of (transcriptSegments sourceCode (srt comparator (comments @ tokens)))) @
     ''\<newline>'' \<and>
   (\<exists>n. markers (transcriptSegments sourceCode (srt comparator (comments @ tokens))) =
        concat (replicate n [FenceOpen, FenceClose])) \<and>
   markers (emitted sourceCode st token) =
     (if isComment token = inComment st then []
      else [if isComment token then FenceClose else FenceOpen]) \<and>
   inComment (visit sourceCode st token) = isComment token \<and>
   transcriptSegments sourceCode (srt comparator (comments @ tokens)) =
     segments sourceCode initial (srt comparator (comments @ tokens)) @
     (if inComment (forEach sourceCode initial (srt comparator (comments @ tokens)))
      then [] else [FenceClose])"
proof -
  let ?all = "srt comparator (comments @ tokens)"
  obtain n where "(if inComment initial then [] else [FenceOpen]) @
        markers (segments sourceCode initial ?all) @
        (if inComment (forEach sourceCode initial ?all) then [] else [FenceClose]) =
        concat (replicate n [FenceOpen, FenceClose])"
    using markers_alternate by blast
  then have "markers (transcriptSegments sourceCode ?all) =
      concat (replicate n [FenceOpen, FenceClose])"
    by (cases "inComment (forEach sourceCode initial ?all)")
      (simp_all add: transcriptSegments_def markers_append initial_def)
  then have "\<exists>n. markers (transcriptSegments sourceCode ?all) =
      concat (replicate n [FenceOpen, FenceClose])"
    by blast
  moreover have "transcriptSegments sourceCode ?all =
     segments sourceCode initial ?all @
     (if inComment (forEach sourceCode initial ?all) then [] else [FenceClose])"
    by (simp add: transcriptSegments_def)
  ultimately show ?thesis
    by (simp only: transcript_segments markers_emitted inComment_visit simp_thms)
qed

subsection \<open>C4: a source without block comments\<close>

text \<open>
  Claim C4, as stated, gives the output as the opening fence, a line break, the source
  text, a line break, the closing fence and a line break. For the source \<open>var x\<close> the
  output has no line break between the opening fence and the source.
\<close>

theorem code_only_counterexample:
  "transcript ''var x'' (InsertionSort comparator ([] @ tokensVarX)) = ''```jsvar x\<newline>```\<newline>'' \<and>
   transcript ''var x'' (InsertionSort comparator ([] @ tokensVarX)) \<noteq>
     ''```js'' @ ''\<newline>'' @ ''var x'' @ ''\<newline>```\<newline>''"
  by code_simp

text \<open>
  Claim C4, amended. When the merged sequence of a parse without comments is not empty,
  holds no block comment and its range ends do not decrease, the output is the opening
  fence \<open>```js\<close>, directly followed by the source text up to the end of the last
  span, then the closing fence \<open>\n```\<close> and a line break.
\<close>

theorem code_only_output:
  "srt comparator ([] @ tokens) \<noteq> [] \<Longrightarrow>
   \<forall>token \<in> set (srt comparator ([] @ tokens)). \<not> isComment token \<Longrightarrow>
   endsAscending (srt comparator ([] @ tokens)) \<Longrightarrow>
   transcript sourceCode (srt comparator ([] @ tokens)) =
     ''```js'' @ take (snd (range' (last (srt comparator ([] @ tokens))))) sourceCode @
     ''\<newline>```'' @ ''\<newline>''"
proof -
  let ?all = "srt comparator ([] @ tokens)"
  assume ne: "?all \<noteq> []" and code: "\<forall>token \<in> set ?all. \<not> isComment token"
    and asc: "endsAscending ?all"
  from asc have srt: "sorted (startOf (previousEnd initial) # map (\<lambda>token. snd (range' token)) ?all)"
    by (simp add: endsAscending_def startOf_def initial_def)
  have sub: "substring sourceCode None (snd (range' (last ?all))) = take (snd (range' (last ?all))) sourceCode"
    by (simp add: substring_def Let_def min_def)
  from run_of_code [OF ne code srt, of sourceCode] sub
  show ?thesis
    by (simp add: transcript_def Let_def str_forEach initial_def)
qed

theorem code_only_output_witness:
  "InsertionSort comparator ([] @ tokensVarX) \<noteq> [] \<and>
   list_all (\<lambda>token. \<not> isComment token) (InsertionSort comparator ([] @ tokensVarX)) \<and>
   endsAscending (InsertionSort comparator ([] @ tokensVarX)) \<and>
   transcript ''var x\<newline>'' (InsertionSort comparator ([] @ tokensVarX)) =
     ''```jsvar x\<newline>```\<newline>''"
proof -
  have s: "InsertionSort comparator ([] @ tokensVarX) = tokensVarX"
    by code_simp
  have h1: "InsertionSort comparator ([] @ tokensVarX) \<noteq> []"
    and h2: "\<forall>token \<in> set (InsertionSort comparator ([] @ tokensVarX)). \<not> isComment token"
    and h3: "endsAscending (InsertionSort comparator ([] @ tokensVarX))"
    unfolding s by (simp_all add: tokensVarX_def span_def isComment_def endsAscending_def)
  have e: "snd (range' (last (InsertionSort comparator ([] @ tokensVarX)))) = 5"
    unfolding s by (simp add: tokensVarX_def span_def)
  have "transcript ''var x\<newline>'' (InsertionSort comparator ([] @ tokensVarX)) =
      ''```js'' @ take 5 ''var x\<newline>'' @ ''\<newline>```'' @ ''\<newline>''"
    using code_only_output [of InsertionSort tokensVarX "''var x\<newline>''"] h1 h2 h3
    unfolding e by blast
  with h1 h2 h3 show ?thesis
    by (simp add: list_all_iff)
qed

subsection \<open>C5: line comments\<close>

text \<open>
  Claim C5, as stated, says that a line comment triggers no opening and no closing
  fence. For the source \<open>// hi\<close> the line comment is the first span: the state is
  prose, and its visit appends the opening fence.
\<close>

theorem line_comment_counterexample:
  "type (hd commentsHi) = ''Line'' \<and>
   markers (emitted ''// hi'' initial (hd (InsertionSort comparator (commentsHi @ [])))) = [FenceOpen] \<and>
   transcript ''// hi'' (InsertionSort comparator (commentsHi @ [])) = ''```js// hi\<newline>```\<newline>''"
  by code_simp

text \<open>
  Claim C5, amended. A span is treated as prose exactly when its type is \<open>Block\<close>:
  a visit appends a comment value exactly for such a span. A line comment is handled as
  any token: its visit appends the opening fence exactly when the state is prose (the
  span is the first one or follows a block comment), never the closing fence, then the
  slice of the source from the previous end to the comment's end, which ends with the
  comment's own text, delimiters included; and it leaves the state in code.
\<close>

theorem line_comment_is_code:
  "type token = ''Line'' \<Longrightarrow>
   startOf (previousEnd st) \<le> fst (range' token) \<Longrightarrow>
   fst (range' token) \<le> snd (range' token) \<Longrightarrow>
   isComment other = (type other = ''Block'') \<and>
   (\<exists>v. Prose v \<in> set (emitted sourceCode st other)) = isComment other \<and>
   \<not> isComment token \<and>
   emitted sourceCode st token =
     (if inComment st then [FenceOpen] else []) @
     [CodeSlice (substring sourceCode (previousEnd st) (snd (range' token)))] \<and>
   substring sourceCode (previousEnd st) (snd (range' token)) =
     substring sourceCode (previousEnd st) (fst (range' token)) @
     substring sourceCode (Some (fst (range' token))) (snd (range' token)) \<and>
   inComment (visit sourceCode st token) = False"
proof -
  assume ty: "type token = ''Line''"
    and le1: "startOf (previousEnd st) \<le> fst (range' token)"
    and le2: "fst (range' token) \<le> snd (range' token)"
  have code: "\<not> isComment token"
    using ty by (simp add: isComment_def)
  have "(\<exists>v. Prose v \<in> set (emitted sourceCode st other)) = isComment other"
    by (auto simp add: emitted_def)
  moreover have "isComment other = (type other = ''Block'')"
    by (simp add: isComment_def)
  moreover note code emitted_code [OF code] substring_append [OF le1 le2, symmetric]
  moreover have "inComment (visit sourceCode st token) = False"
    using code by (simp add: inComment_visit)
  ultimately show ?thesis by blast
qed

theorem line_comment_is_code_witness:
  "type (hd commentsHi) = ''Line'' \<and>
   startOf (previousEnd initial) \<le> fst (range' (hd commentsHi)) \<and>
   fst (range' (hd commentsHi)) \<le> snd (range' (hd commentsHi)) \<and>
   \<not> isComment (hd commentsHi) \<and>
   emitted ''// hi'' initial (hd commentsHi) = [FenceOpen, CodeSlice ''// hi''] \<and>
   inComment (visit ''// hi'' initial (hd commentsHi)) = False"
proof -
  have h1: "type (hd commentsHi) = ''Line''"
    and h2: "startOf (previousEnd initial) \<le> fst (range' (hd commentsHi))"
    and h3: "fst (range' (hd commentsHi)) \<le> snd (range' (hd commentsHi))"
    by (simp_all add: commentsHi_def span_def startOf_def initial_def)
  have s: "substring ''// hi'' (previousEnd initial) (snd (range' (hd commentsHi))) = ''// hi''"
    by code_simp
  have i: "inComment initial"
    by (simp add: initial_def)
  have "\<not> isComment (hd commentsHi)"
    and "emitted ''// hi'' initial (hd commentsHi) =
      (if inComment initial then [FenceOpen] else []) @
      [CodeSlice (substring ''// hi'' (previousEnd initial) (snd (range' (hd commentsHi))))]"
    and "inComment (visit ''// hi'' initial (hd commentsHi)) = False"
    using line_comment_is_code [OF h1 h2 h3, of "hd commentsHi" "''// hi''"] by blast+
  with h1 h2 h3 show ?thesis
    unfolding s by (simp add: i)
qed

subsection \<open>C6: reading \<open>previousEnd\<close> before it is set\<close>

text \<open>
  Claim C6, as stated, says that \<open>previousEnd\<close> is never read while it is undefined.
  For the source \<open>var x\<close> the first span is the token \<open>var\<close>: its visit takes the
  slice branch while \<open>previousEnd\<close> has no value.
\<close>

theorem previousEnd_read_counterexample:
  "\<not> isComment (hd (InsertionSort comparator ([] @ tokensVarX))) \<and>
   readsUndefined initial (hd (InsertionSort comparator ([] @ tokensVarX))) \<and>
   undefinedReads ''var x'' initial (InsertionSort comparator ([] @ tokensVarX)) = 1"
  by code_simp

text \<open>
  Claim C6, amended. \<open>previousEnd\<close> is read while undefined exactly once when the
  first span of the merged sequence is not a block comment, at the visit of that span,
  and never otherwise; \<open>substring\<close> takes the undefined start as offset 0, so that
  slice is the source up to the span's end; every visit leaves \<open>previousEnd\<close> set.
\<close>

theorem previousEnd_read_undefined:
  "undefinedReads sourceCode initial allTokens =
     (case allTokens of [] \<Rightarrow> 0 | token # rest \<Rightarrow> if isComment token then 0 else 1) \<and>
   substring sourceCode None e = take e sourceCode \<and>
   previousEnd (visit sourceCode st token) = Some (snd (range' token))"
proof -
  have "undefinedReads sourceCode initial allTokens =
     (case allTokens of [] \<Rightarrow> 0 | token # rest \<Rightarrow> if isComment token then 0 else 1)"
  proof (cases allTokens)
    case Nil
    then show ?thesis by simp
  next
    case (Cons token rest)
    have "undefinedReads sourceCode (visit sourceCode initial token) rest = 0"
      by (rule undefinedReads_defined) (simp add: previousEnd_visit)
    with Cons show ?thesis
      by (simp add: readsUndefined_def initial_def)
  qed
  moreover have "substring sourceCode None e = take e sourceCode"
    by (simp add: substring_def Let_def min_def)
  ultimately show ?thesis
    by (simp add: previousEnd_visit)
qed

subsection \<open>C7: a file that begins with a block comment\<close>

text \<open>
  Claim C7. For the source \<open>/* hello */\<close>, line break, \<open>var x = 1;\<close>, with the
  comment and the five tokens of its parse and a sort that leaves this ordered sequence
  as it is, the script writes the comment's value first, with no fence before it, then
  the opening fence, the code slice from the end of the comment to the end of the last
  token, the closing fence and a line break. This holds whatever the value \<open>v\<close> of
  the comment is; the parser reports the text between the delimiters.
\<close>

theorem leading_comment_shape:
  "readFile 0 file = Inr sourceHello \<Longrightarrow>
   parse sourceHello = Inr (commentsHello v, tokensHello) \<Longrightarrow>
   srt comparator (commentsHello v @ tokensHello) = commentsHello v @ tokensHello \<Longrightarrow>
   main readFile parse srt file =
     \<lparr>thrown = None,
      stdout = [v @ ''```js'' @ ''\<newline>var x = 1;'' @ ''\<newline>```'' @ ''\<newline>'']\<rparr> \<and>
   transcriptSegments sourceHello (srt comparator (commentsHello v @ tokensHello)) =
     [Prose v, FenceOpen, CodeSlice ''\<newline>var'', CodeSlice '' x'', CodeSlice '' ='',
      CodeSlice '' 1'', CodeSlice '';'', FenceClose]"
proof -
  assume rd: "readFile 0 file = Inr sourceHello"
    and ps: "parse sourceHello = Inr (commentsHello v, tokensHello)"
    and so: "srt comparator (commentsHello v @ tokensHello) = commentsHello v @ tokensHello"
  have fin: "inComment (forEach sourceHello initial (commentsHello v @ tokensHello)) = False"
    by (simp add: inComment_forEach commentsHello_def tokensHello_def span_def isComment_def)
  have segs: "transcriptSegments sourceHello (commentsHello v @ tokensHello) =
     [Prose v, FenceOpen, CodeSlice ''\<newline>var'', CodeSlice '' x'', CodeSlice '' ='',
      CodeSlice '' 1'', CodeSlice '';'', FenceClose]"
    unfolding transcriptSegments_def fin
    by (simp add: emitted_def inComment_visit previousEnd_visit initial_def isComment_def
        substring_def sourceHello_def commentsHello_def tokensHello_def span_def Let_def)
  have "transcript sourceHello (commentsHello v @ tokensHello) =
      v @ ''```js'' @ ''\<newline>var x = 1;'' @ ''\<newline>```'' @ ''\<newline>''"
    by (simp add: transcript_segments segs)
  with rd ps so segs show ?thesis
    by (simp add: main_def callback_def)
qed

theorem leading_comment_shape_witness:
  "(\<lambda>n f. Inr sourceHello) 0 ''a.js'' = Inr sourceHello \<and>
   (\<lambda>s. Inr (commentsHello '' hello '', tokensHello)) sourceHello =
      Inr (commentsHello '' hello '', tokensHello) \<and>
   InsertionSort comparator (commentsHello '' hello '' @ tokensHello) =
      commentsHello '' hello '' @ tokensHello \<and>
   main (\<lambda>n f. Inr sourceHello) (\<lambda>s. Inr (commentsHello '' hello '', tokensHello)) InsertionSort ''a.js'' =
     \<lparr>thrown = None,
      stdout = ['' hello '' @ ''```js'' @ ''\<newline>var x = 1;'' @ ''\<newline>```'' @ ''\<newline>'']\<rparr>"
proof -
  have s: "InsertionSort comparator (commentsHello '' hello '' @ tokensHello) =
      commentsHello '' hello '' @ tokensHello"
    by code_simp
  show ?thesis
    using leading_comment_shape [of "\<lambda>n f. Inr sourceHello" "''a.js''"
        "\<lambda>s. Inr (commentsHello '' hello '', tokensHello)" "'' hello ''" InsertionSort] s
    by simp
qed

subsection \<open>C8: failure of the file read\<close>

text \<open>
  Claim C8. When the read of the file yields an error, the callback throws that error,
  nothing is handed to the standard output, and the outcome does not depend on what a
  further attempt to read the file would yield: there is one read.
\<close>

theorem read_failure:
  "readFile 0 file = Inl e \<Longrightarrow>
   main readFile parse srt file = \<lparr>thrown = Some e, stdout = []\<rparr>"
  by (simp add: main_def callback_def)

theorem read_failure_witness:
  "(\<lambda>n f. if n = 0 then Inl (Error ''ENOENT'') else Inr ''var x'') 0 ''a.js'' = Inl (Error ''ENOENT'') \<and>
   main (\<lambda>n f. if n = 0 then Inl (Error ''ENOENT'') else Inr ''var x'')
        (\<lambda>s. Inr ([], tokensVarX)) InsertionSort ''a.js'' =
     \<lparr>thrown = Some (Error ''ENOENT''), stdout = []\<rparr>"
  using read_failure [of "\<lambda>n f. if n = 0 then Inl (Error ''ENOENT'') else Inr ''var x''" "''a.js''"
      "Error ''ENOENT''" "\<lambda>s. Inr ([], tokensVarX)" InsertionSort]
  by simp

subsection \<open>C9: the comparator on spans at one position\<close>

text \<open>
  Claim C9. The comparator never returns 0, and for two spans that start at the same
  line and column it returns 1 in both argument orders, so it is not antisymmetric
  and by itself does not say which of the two comes first.
\<close>

theorem comparator_ties:
  "comparator a b \<noteq> 0 \<and>
   (line (start (loc a)) = line (start (loc b)) \<and>
    column (start (loc a)) = column (start (loc b))
      \<longrightarrow> comparator a b = 1 \<and> comparator b a = 1 \<and> comparator a b \<noteq> - comparator b a)"
  by (simp add: comparator_def Let_def)

theorem comparator_ties_witness:
  "line (start (loc tiedComment)) = line (start (loc tiedToken)) \<and>
   column (start (loc tiedComment)) = column (start (loc tiedToken)) \<and>
   comparator tiedComment tiedToken \<noteq> 0 \<and>
   comparator tiedComment tiedToken = 1 \<and> comparator tiedToken tiedComment = 1"
  using comparator_ties [of tiedComment tiedToken]
  by (simp add: tiedComment_def tiedToken_def span_def)

subsection \<open>C10: the output stops at the end of the last span\<close>

text \<open>
  Claim C10. For a merged sequence that is not empty and whose range ends do not
  decrease (the spans of a parse do not overlap), the output is what the visits before
  the last span append, then what the visit of the last span appends, then the closing
  fence when that span is not a block comment, then the line break of the write. The code
  slices are the characters of the source at the covered offsets, every covered offset
  lies before the end of the last span, and when the last span is not a block comment the
  covered offsets end with those from the previous end to the last span's end: no
  character at or after that end is in a slice.
\<close>

theorem output_ends_at_last_span:
  "allTokens \<noteq> [] \<Longrightarrow> endsAscending allTokens \<Longrightarrow>
   transcript sourceCode allTokens =
     concat (map text_of (segments sourceCode initial (butlast allTokens))) @
     concat (map text_of (emitted sourceCode (forEach sourceCode initial (butlast allTokens)) (last allTokens))) @
     (if isComment (last allTokens) then '''' else ''\<newline>```'') @ ''\<newline>'' \<and>
   concat (codeSlices (transcriptSegments sourceCode allTokens)) =
     map ((!) sourceCode) (filter (\<lambda>i. i < length sourceCode) (covered 0 allTokens)) \<and>
   (\<forall>i \<in> set (covered 0 allTokens). i < snd (range' (last allTokens))) \<and>
   covered 0 allTokens =
     covered 0 (butlast allTokens) @
     (if isComment (last allTokens) then []
      else [startOf (previousEnd (forEach sourceCode initial (butlast allTokens)))
              ..< snd (range' (last allTokens))])"
proof -
  assume ne: "allTokens \<noteq> []" and asc: "endsAscending allTokens"
  from asc have srt: "sorted (map (\<lambda>token. snd (range' token)) allTokens)"
    by (simp add: endsAscending_def)
  then have srt0: "sorted (startOf (previousEnd initial) # map (\<lambda>token. snd (range' token)) allTokens)"
    by (simp add: startOf_def initial_def)
  have "transcript sourceCode allTokens =
     concat (map text_of (segments sourceCode initial (butlast allTokens))) @
     concat (map text_of (emitted sourceCode (forEach sourceCode initial (butlast allTokens)) (last allTokens))) @
     (if isComment (last allTokens) then '''' else ''\<newline>```'') @ ''\<newline>''"
    by (simp add: transcript_last [OF ne] segments_last [OF ne, of sourceCode initial])
  moreover have "concat (codeSlices (transcriptSegments sourceCode allTokens)) =
     map ((!) sourceCode) (filter (\<lambda>i. i < length sourceCode) (covered 0 allTokens))"
    using slices_covered [OF srt0, of sourceCode]
    by (simp add: codeSlices_transcriptSegments startOf_def initial_def)
  moreover have "\<forall>i \<in> set (covered 0 allTokens). i < snd (range' (last allTokens))"
    using covered_upper [OF ne srt] by blast
  moreover have "covered 0 allTokens =
     covered 0 (butlast allTokens) @
     (if isComment (last allTokens) then []
      else [startOf (previousEnd (forEach sourceCode initial (butlast allTokens)))
              ..< snd (range' (last allTokens))])"
  proof -
    have "startOf (previousEnd initial) = 0"
      by (simp add: startOf_def initial_def)
    then show ?thesis
      by (simp add: covered_last [OF ne, of 0] startOf_forEach)
  qed
  ultimately show ?thesis by blast
qed

theorem output_ends_at_last_span_witness:
  "InsertionSort comparator ([] @ tokensVarX) \<noteq> [] \<and>
   endsAscending (InsertionSort comparator ([] @ tokensVarX)) \<and>
   transcript ''var x\<newline>'' (InsertionSort comparator ([] @ tokensVarX)) =
     ''```jsvar x\<newline>```\<newline>'' \<and>
   covered 0 (InsertionSort comparator ([] @ tokensVarX)) = [0, 1, 2, 3, 4] \<and>
   snd (range' (last (InsertionSort comparator ([] @ tokensVarX)))) = 5 \<and>
   list_all (\<lambda>i. i < snd (range' (last (InsertionSort comparator ([] @ tokensVarX)))))
     (covered 0 (InsertionSort comparator ([] @ tokensVarX)))"
proof -
  have h1: "InsertionSort comparator ([] @ tokensVarX) \<noteq> []"
    and h2: "endsAscending (InsertionSort comparator ([] @ tokensVarX))"
    by code_simp+
  have t: "transcript ''var x\<newline>'' (InsertionSort comparator ([] @ tokensVarX)) =
      ''```jsvar x\<newline>```\<newline>''"
    by code_simp
  have c: "covered 0 (InsertionSort comparator ([] @ tokensVarX)) = [0, 1, 2, 3, 4]"
    by code_simp
  have e: "snd (range' (last (InsertionSort comparator ([] @ tokensVarX)))) = 5"
    by code_simp
  have "\<forall>i \<in> set (covered 0 (InsertionSort comparator ([] @ tokensVarX))).
      i < snd (range' (last (InsertionSort comparator ([] @ tokensVarX))))"
    using output_ends_at_last_span [OF h1 h2, of "''var x\<newline>''"] by blast
  then have "list_all (\<lambda>i. i < snd (range' (last (InsertionSort comparator ([] @ tokensVarX)))))
      (covered 0 (InsertionSort comparator ([] @ tokensVarX)))"
    by (simp only: list_all_iff)
  with h1 h2 t c e show ?thesis by blast
qed

end
